theory Spec2Isabelle
  imports Main "HOL-Library.Multiset"
begin

section \<open>Visit queries and visit reports of recordingUtil.ts\<close>

text \<open>
  The development embeds two functions of \<^verbatim>\<open>src/api/V1/recordingUtil.ts\<close>:
  \<^verbatim>\<open>queryVisits\<close> (the windowed fetch loop and the assembly of its result) and
  \<^verbatim>\<open>reportVisits\<close> (the rows written for each visit). Times are \<^typ>\<open>int\<close>
  (milliseconds, what \<^verbatim>\<open>moment\<close> values compare by); counts and offsets are
  JavaScript numbers holding integers.
\<close>

subsection \<open>Data\<close>

text \<open>A rejected promise of an awaited fetch of recordings.\<close>

datatype error = FetchFailed

text \<open>
  An audio bait event as the two functions read it: \<^verbatim>\<open>dateTime\<close>,
  \<^verbatim>\<open>EventDetail.details.fileId\<close>, \<^verbatim>\<open>EventDetail.details.volume\<close> and
  \<^verbatim>\<open>dataValues.fileName\<close>. \<open>None\<close> is JavaScript's \<^verbatim>\<open>undefined\<close>.
\<close>

record audio_event =
  dateTime :: int
  fileId :: nat
  volume :: "nat option"
  fileName :: "string option"

record visit_event =
  recID :: nat
  trackID :: nat
  eventStart :: int

record visit =
  visitID :: nat
  deviceId :: nat
  start :: int
  end_time :: int
  queryOffset :: int
  complete :: bool
  assumedTag :: string
  events :: "visit_event list"
  audioBaitEvents :: "audio_event list"

text \<open>A row of \<^verbatim>\<open>models.File.getMultiple\<close>: \<^verbatim>\<open>f.id\<close> and \<^verbatim>\<open>f.details.name\<close>.\<close>

record file_row =
  file_id :: nat
  file_name :: string

text \<open>\<^verbatim>\<open>request.query.limit\<close> and \<^verbatim>\<open>request.query.offset\<close>; \<open>None\<close> is null.\<close>

record request =
  limit :: "int option"
  offset :: "nat option"

text \<open>
  What \<^verbatim>\<open>queryVisits\<close> calls and this file does not define. The query builder, the
  filter, the tag mode and the user are fixed for one call, so the two fetches are
  functions of the builder's current offset and limit. \<^verbatim>\<open>DeviceSummary\<close> is
  imported from \<^verbatim>\<open>./Visits\<close>; its methods are taken as they are called, on a
  summary of any type \<open>'s\<close>. \<^verbatim>\<open>sortVisits\<close> and \<^verbatim>\<open>sortAudioEvents\<close> are
  \<^verbatim>\<open>Array.prototype.sort\<close> of the host at the two element types, given the
  comparator. \<^verbatim>\<open>deviceEntries\<close> is \<^verbatim>\<open>Object.entries\<close> of the summary's device map
  as \<^verbatim>\<open>reportDeviceVisits\<close> reads it: each device id with the keys of the
  \<^verbatim>\<open>animalSummary()\<close> of its \<^verbatim>\<open>DeviceVisits\<close>.
\<close>

record ('s, 'r) collaborators =
  findAll :: "nat \<Rightarrow> int \<Rightarrow> error + 'r list"
  findAndCountAll :: "nat \<Rightarrow> int \<Rightarrow> error + (int \<times> 'r list)"
  filterData :: "'r \<Rightarrow> 'r"
  newDeviceSummary :: 's
  generateVisits :: "'s \<Rightarrow> 'r list \<Rightarrow> nat \<Rightarrow> bool \<Rightarrow> 's"
  checkForCompleteVisits :: "'s \<Rightarrow> 's"
  completeVisitsCount :: "'s \<Rightarrow> nat"
  markCompleted :: "'s \<Rightarrow> 's"
  removeIncompleteVisits :: "'s \<Rightarrow> 's"
  allAudioFileIds :: "'s \<Rightarrow> nat list"
  completeVisits :: "'s \<Rightarrow> visit list"
  earliestIncompleteOffset :: "'s \<Rightarrow> int option"
  getMultiple :: "nat list \<Rightarrow> file_row list"
  sortVisits :: "(visit \<Rightarrow> visit \<Rightarrow> int) \<Rightarrow> visit list \<Rightarrow> visit list"
  sortAudioEvents ::
    "(audio_event \<Rightarrow> audio_event \<Rightarrow> int) \<Rightarrow> audio_event list \<Rightarrow> audio_event list"
  deviceEntries :: "'s \<Rightarrow> (nat \<times> string list) list"

text \<open>
  The variables of \<^verbatim>\<open>queryVisits\<close> that the loop changes. \<^verbatim>\<open>q_offset\<close> and
  \<^verbatim>\<open>q_limit\<close> are \<^verbatim>\<open>builder.query.offset\<close> and \<^verbatim>\<open>builder.query.limit\<close>;
  \<^verbatim>\<open>totalCount\<close>, \<^verbatim>\<open>recordings\<close> and \<^verbatim>\<open>gotAllRecordings\<close> are declared
  without a value, hence \<open>None\<close> at first.
\<close>

record ('s, 'r) locals =
  q_offset :: nat
  q_limit :: int
  devSummary :: 's
  numRecordings :: nat
  remainingVisits :: int
  totalCount :: "int option"
  recordings :: "'r list option"
  gotAllRecordings :: "bool option"

record 's visits_result =
  res_visits :: "visit list"
  res_summary :: 's
  res_hasMoreVisits :: bool
  res_totalRecordings :: "int option"
  res_queryOffset :: "int option"
  res_numRecordings :: nat
  res_numVisits :: nat

subsection \<open>JavaScript coercions used by the loop\<close>

text \<open>A number or a boolean in a condition: undefined, 0 and false do not pass.\<close>

definition truthyNumber :: "int option \<Rightarrow> bool" where
  "truthyNumber c = (case c of None \<Rightarrow> False | Some n \<Rightarrow> n \<noteq> 0)"

definition truthyBool :: "bool option \<Rightarrow> bool" where
  "truthyBool g = (case g of None \<Rightarrow> False | Some b \<Rightarrow> b)"

text \<open>
  The loop compares a number with the array \<^verbatim>\<open>recordings\<close>. The relational
  operator turns the array into a primitive, its elements joined by commas, and that
  string into a number: the empty array is the empty string and so 0; an array of model
  instances is a string of \<^verbatim>\<open>[object ...]\<close> texts and so NaN (\<open>None\<close>). A comparison
  with NaN is false.
\<close>

definition arrayToNumber :: "'r list \<Rightarrow> int option" where
  "arrayToNumber rs = (if rs = [] then Some 0 else None)"

definition geNumber :: "int \<Rightarrow> int option \<Rightarrow> bool" where
  "geNumber n m = (case m of None \<Rightarrow> False | Some k \<Rightarrow> k \<le> n)"

subsection \<open>queryVisits\<close>

definition maxVisitQueryResults :: int where
  "maxVisitQueryResults = 5000"

definition requestVisits :: "request \<Rightarrow> int" where
  "requestVisits rq = (case limit rq of None \<Rightarrow> maxVisitQueryResults | Some l \<Rightarrow> l)"

definition queryMax :: int where
  "queryMax = maxVisitQueryResults * 2"

definition queryLimit :: "request \<Rightarrow> int" where
  "queryLimit rq =
     (case limit rq of
        None \<Rightarrow> queryMax
      | Some l \<Rightarrow> if truthyNumber (Some l) then min (l * 2) queryMax else queryMax)"

text \<open>\<^verbatim>\<open>request.query.offset || 0\<close>, the offset handed to \<^verbatim>\<open>generateVisits\<close>.\<close>

definition requestOffset :: "request \<Rightarrow> nat" where
  "requestOffset rq = (case offset rq of None \<Rightarrow> 0 | Some k \<Rightarrow> k)"

text \<open>
  Modelled from the spec: \<^verbatim>\<open>models.Recording.queryBuilder().init\<close> is not part of the
  file; the engine's inputs are "an initial page size \<^verbatim>\<open>queryLimit\<close>, and optional
  starting offset", so the builder starts at the request's offset (0 when there is none)
  with the limit it is given.
\<close>

definition initLocals :: "('s, 'r) collaborators \<Rightarrow> request \<Rightarrow> ('s, 'r) locals" where
  "initLocals c rq =
     \<lparr> q_offset = requestOffset rq,
       q_limit = queryLimit rq,
       devSummary = newDeviceSummary c,
       numRecordings = 0,
       remainingVisits = requestVisits rq,
       totalCount = None,
       recordings = None,
       gotAllRecordings = None \<rparr>"

text \<open>The condition of the \<^verbatim>\<open>while\<close>.\<close>

definition loopCondition :: "('s, 'r) locals \<Rightarrow> bool" where
  "loopCondition l = (truthyBool (gotAllRecordings l) \<or> 0 < remainingVisits l)"

text \<open>\<^verbatim>\<open>builder.get()\<close>: the query a fetch is made with, as its offset and its limit.\<close>

definition builderGet :: "('s, 'r) locals \<Rightarrow> nat \<times> int" where
  "builderGet l = (q_offset l, q_limit l)"

text \<open>
  The fetch at the head of the body: the count is asked for until one is known. It
  yields the new value of \<^verbatim>\<open>totalCount\<close> and the rows.
\<close>

definition fetchPage ::
  "('s, 'r) collaborators \<Rightarrow> ('s, 'r) locals \<Rightarrow> error + (int option \<times> 'r list)" where
  "fetchPage c l =
     (if truthyNumber (totalCount l)
      then (case findAll c (fst (builderGet l)) (snd (builderGet l)) of
              Inl e \<Rightarrow> Inl e
            | Inr rows \<Rightarrow> Inr (totalCount l, rows))
      else (case findAndCountAll c (fst (builderGet l)) (snd (builderGet l)) of
              Inl e \<Rightarrow> Inl e
            | Inr (n, rows) \<Rightarrow> Inr (Some n, rows)))"

text \<open>The two assignments after the fetch, up to the test for an empty page.\<close>

definition countPage :: "'r list \<Rightarrow> ('s, 'r) locals \<Rightarrow> ('s, 'r) locals" where
  "countPage rows l =
     l\<lparr> numRecordings := numRecordings l + length rows,
        gotAllRecordings :=
          Some (geNumber (int (length rows) + int (q_offset l)) (arrayToNumber rows)) \<rparr>"

text \<open>The rest of the body, run when the page is not empty.\<close>

definition consumePage ::
  "('s, 'r) collaborators \<Rightarrow> request \<Rightarrow> 'r list \<Rightarrow> ('s, 'r) locals \<Rightarrow> ('s, 'r) locals" where
  "consumePage c rq rows l =
     (let filtered = map (filterData c) rows;
          got = truthyBool (gotAllRecordings l);
          ds1 = generateVisits c (devSummary l) filtered (requestOffset rq) got;
          ds2 = (if \<not> got then checkForCompleteVisits c ds1 else ds1);
          remaining = requestVisits rq - int (completeVisitsCount c ds2)
      in l\<lparr> recordings := Some filtered,
            devSummary := ds2,
            remainingVisits := remaining,
            q_limit := min (remaining * 2) queryMax,
            q_offset := q_offset l + length rows \<rparr>)"

text \<open>One pass through the body: it throws, leaves by \<^verbatim>\<open>break\<close>, or reaches its end.\<close>

datatype ('s, 'r) pass = Thrown error | Broke "('s, 'r) locals" | Completed "('s, 'r) locals"

definition loopBody ::
  "('s, 'r) collaborators \<Rightarrow> request \<Rightarrow> ('s, 'r) locals \<Rightarrow> ('s, 'r) pass" where
  "loopBody c rq l =
     (case fetchPage c l of
        Inl e \<Rightarrow> Thrown e
      | Inr (counted, rows) \<Rightarrow>
          (let l1 = l\<lparr>totalCount := counted, recordings := Some rows\<rparr>;
               l2 = countPage rows l1
           in if length rows = 0 then Broke l2 else Completed (consumePage c rq rows l2)))"

text \<open>
  The \<^verbatim>\<open>while\<close> loop. The source may answer with rows for ever, so the loop is given
  a number of passes it may make; \<open>None\<close> says that this number did not suffice.
\<close>

primrec fetchLoop ::
  "nat \<Rightarrow> ('s, 'r) collaborators \<Rightarrow> request \<Rightarrow> ('s, 'r) locals \<Rightarrow> (error + ('s, 'r) locals) option" where
  "fetchLoop 0 c rq l = (if loopCondition l then None else Some (Inr l))"
| "fetchLoop (Suc n) c rq l =
     (if loopCondition l
      then (case loopBody c rq l of
              Thrown e \<Rightarrow> Some (Inl e)
            | Broke l' \<Rightarrow> Some (Inr l')
            | Completed l' \<Rightarrow> fetchLoop n c rq l')
      else Some (Inr l))"

text \<open>The comparator given to \<^verbatim>\<open>visits.sort\<close>.\<close>

definition compareVisits :: "visit \<Rightarrow> visit \<Rightarrow> int" where
  "compareVisits a b = (if start b > start a then 1 else - 1)"

text \<open>
  \<^verbatim>\<open>audioFileNames\<close>: the names are stored under the file ids, a later row
  replacing an earlier one with the same id; a key that was never stored reads as
  undefined.
\<close>

definition audioFileNames :: "file_row list \<Rightarrow> (nat \<rightharpoonup> string)" where
  "audioFileNames files = foldl (\<lambda>m f. m(file_id f \<mapsto> file_name f)) Map.empty files"

definition nameAudioEvents :: "(nat \<rightharpoonup> string) \<Rightarrow> visit \<Rightarrow> visit" where
  "nameAudioEvents names v =
     v\<lparr>audioBaitEvents := map (\<lambda>a. a\<lparr>fileName := names (fileId a)\<rparr>) (audioBaitEvents v)\<rparr>"

text \<open>
  The statements after the loop. The visits of the result are the objects of the summary
  with their audio events named; the summary of the result is kept as the summary
  returned by the finalising call, so the names written into the shared audio events
  are read through \<open>res_visits\<close> only.
\<close>

definition finishQuery :: "('s, 'r) collaborators \<Rightarrow> ('s, 'r) locals \<Rightarrow> 's visits_result" where
  "finishQuery c l =
     (let ds = (if truthyBool (gotAllRecordings l)
                then markCompleted c (devSummary l)
                else removeIncompleteVisits c (devSummary l));
          audioFileIds = allAudioFileIds c ds;
          visits = sortVisits c compareVisits (completeVisits c ds);
          queryOffset0 = earliestIncompleteOffset c ds;
          queryOffset1 = (if queryOffset0 = None \<and> 0 < length visits
                          then Some (queryOffset (last visits) + 1)
                          else queryOffset0);
          names = audioFileNames (getMultiple c audioFileIds)
      in \<lparr> res_visits = map (nameAudioEvents names) visits,
           res_summary = ds,
           res_hasMoreVisits = (\<not> truthyBool (gotAllRecordings l)),
           res_totalRecordings = totalCount l,
           res_queryOffset = queryOffset1,
           res_numRecordings = numRecordings l,
           res_numVisits = length visits \<rparr>)"

definition queryVisits ::
  "nat \<Rightarrow> ('s, 'r) collaborators \<Rightarrow> request \<Rightarrow> (error + 's visits_result) option" where
  "queryVisits fuel c rq =
     (case fetchLoop fuel c rq (initLocals c rq) of
        None \<Rightarrow> None
      | Some (Inl e) \<Rightarrow> Some (Inl e)
      | Some (Inr l) \<Rightarrow> Some (Inr (finishQuery c l)))"

subsection \<open>reportVisits\<close>

text \<open>
  The Audio Played cell of an audio bait row: the file name as it is, or, for a truthy
  volume, the concatenation of the file name, the text \<^verbatim>\<open>" vol "\<close> and the volume.
  The cell is kept as the operands of that concatenation; how the host writes an
  undefined name and a number as text is not modelled.
\<close>

datatype audio_played = NameOnly "string option" | NameAndVolume "string option" nat

text \<open>
  The rows pushed onto \<^verbatim>\<open>out\<close>, with the cells that depend on the summary and on
  the visit; the formatting of times, counts and ratios is not modelled. A device row and
  an animal row carry the device they are written for, an animal row also its animal. An
  audio bait row carries its "What" cell (the file name), the time its "Date" and
  "Start" cells are formatted from, and its "Audio Played" cell.
\<close>

datatype row =
    DeviceHeaderRow
  | DeviceRow nat
  | AnimalRow nat string
  | BlankRow
  | HeaderRow
  | VisitRow nat int int nat
  | EventRow nat nat int
  | AudioBaitRow "string option" int audio_played

text \<open>
  \<^verbatim>\<open>reportDeviceVisits\<close>: the header row, then for each entry of the device map the
  row of the device followed by one row for each animal of its summary.
\<close>

definition reportDeviceVisits :: "('s, 'r) collaborators \<Rightarrow> 's \<Rightarrow> row list" where
  "reportDeviceVisits c s =
     DeviceHeaderRow
       # concat (map (\<lambda>(deviceId, animals). DeviceRow deviceId # map (AnimalRow deviceId) animals)
                  (deviceEntries c s))"

definition addVisitRow :: "visit \<Rightarrow> row" where
  "addVisitRow v = VisitRow (visitID v) (start v) (end_time v) (length (events v))"

definition addEventRow :: "visit_event \<Rightarrow> row" where
  "addEventRow ev = EventRow (recID ev) (trackID ev) (eventStart ev)"

definition addAudioBaitRow :: "audio_event \<Rightarrow> row" where
  "addAudioBaitRow a =
     (let audioPlayed =
            (case volume a of
               None \<Rightarrow> NameOnly (fileName a)
             | Some n \<Rightarrow>
                 if truthyNumber (Some (int n))
                 then NameAndVolume (fileName a) n
                 else NameOnly (fileName a))
      in AudioBaitRow (fileName a) (dateTime a) audioPlayed)"

text \<open>The comparator given to \<^verbatim>\<open>visit.audioBaitEvents.sort\<close>.\<close>

definition compareAudioEvents :: "audio_event \<Rightarrow> audio_event \<Rightarrow> int" where
  "compareAudioEvents a b = (if dateTime a > dateTime b then 1 else - 1)"

text \<open>\<^verbatim>\<open>Array.prototype.pop\<close>: the last element, or undefined from an empty array.\<close>

definition pop :: "'a list \<Rightarrow> 'a option \<times> 'a list" where
  "pop xs = (if xs = [] then (None, []) else (Some (last xs), butlast xs))"

text \<open>
  \<^verbatim>\<open>audioTime\<close> is assigned wherever \<^verbatim>\<open>audioEvent\<close> is, to the time of the event
  or to nothing, so it is read off \<^verbatim>\<open>audioEvent\<close>. \<^verbatim>\<open>audioBaitBefore\<close> is
  \<^verbatim>\<open>audioTime && audioTime.isAfter(event.start)\<close>.
\<close>

definition audioTime :: "audio_event option \<Rightarrow> int option" where
  "audioTime a = map_option dateTime a"

definition audioBaitBefore :: "audio_event option \<Rightarrow> visit_event \<Rightarrow> bool" where
  "audioBaitBefore a ev = (case audioTime a of None \<Rightarrow> False | Some t \<Rightarrow> t > eventStart ev)"

text \<open>
  The inner \<^verbatim>\<open>while\<close>, for one event: the rows it pushes, and \<^verbatim>\<open>audioEvent\<close> and
  \<^verbatim>\<open>audioEvents\<close> when it ends.
\<close>

function whileBaitBefore ::
  "visit_event \<Rightarrow> audio_event option \<Rightarrow> audio_event list
     \<Rightarrow> row list \<times> audio_event option \<times> audio_event list" where
  "whileBaitBefore ev audioEvent audioEvents =
     (case audioEvent of
        None \<Rightarrow> ([], audioEvent, audioEvents)
      | Some a \<Rightarrow>
          if audioBaitBefore (Some a) ev
          then (case whileBaitBefore ev (fst (pop audioEvents)) (snd (pop audioEvents)) of
                  (rows, a', rest) \<Rightarrow> (addAudioBaitRow a # rows, a', rest))
          else ([], audioEvent, audioEvents))"
  by pat_completeness auto
termination
  by (relation "measure (\<lambda>(ev, a, xs). length xs + (if a = None then 0 else 1))")
     (auto simp: pop_def)

declare whileBaitBefore.simps [simp del]

text \<open>The \<^verbatim>\<open>for\<close> loop over the events of the visit.\<close>

fun eventLoop ::
  "visit_event list \<Rightarrow> audio_event option \<Rightarrow> audio_event list
     \<Rightarrow> row list \<times> audio_event option \<times> audio_event list" where
  "eventLoop [] audioEvent audioEvents = ([], audioEvent, audioEvents)"
| "eventLoop (ev # evs) audioEvent audioEvents =
     (case whileBaitBefore ev audioEvent audioEvents of
        (rows1, a1, rest1) \<Rightarrow>
          (case eventLoop evs a1 rest1 of
             (rows2, a2, rest2) \<Rightarrow> (rows1 @ [addEventRow ev] @ rows2, a2, rest2)))"

text \<open>The body of the loop over \<^verbatim>\<open>results.visits\<close>: the rows of one visit.\<close>

definition visitRows :: "('s, 'r) collaborators \<Rightarrow> visit \<Rightarrow> row list" where
  "visitRows c v =
     (let audioEvents = sortAudioEvents c compareAudioEvents (audioBaitEvents v)
      in case eventLoop (events v) (fst (pop audioEvents)) (snd (pop audioEvents)) of
           (rows, audioEvent, rest) \<Rightarrow>
             (let pushed = (case audioEvent of None \<Rightarrow> rest | Some a \<Rightarrow> rest @ [a])
              in addVisitRow v # rows @ map addAudioBaitRow (rev pushed)))"

definition reportVisits ::
  "nat \<Rightarrow> ('s, 'r) collaborators \<Rightarrow> request \<Rightarrow> (error + row list) option" where
  "reportVisits fuel c rq =
     (case queryVisits fuel c rq of
        None \<Rightarrow> None
      | Some (Inl e) \<Rightarrow> Some (Inl e)
      | Some (Inr results) \<Rightarrow>
          Some (Inr (reportDeviceVisits c (res_summary results)
                     @ [BlankRow, HeaderRow]
                     @ concat (map (visitRows c) (res_visits results)))))"

subsection \<open>The state of the variables at each test of the loop condition\<close>

text \<open>
  \<open>boundary k c rq l\<close> is the state in which the condition is tested after \<open>k\<close> full
  passes from \<open>l\<close>; there is none when the loop has ended, thrown or left by
  \<^verbatim>\<open>break\<close> before.
\<close>

fun boundary ::
  "nat \<Rightarrow> ('s, 'r) collaborators \<Rightarrow> request \<Rightarrow> ('s, 'r) locals \<Rightarrow> ('s, 'r) locals option" where
  "boundary 0 c rq l = Some l"
| "boundary (Suc k) c rq l =
     (if loopCondition l
      then (case loopBody c rq l of
              Thrown e \<Rightarrow> None
            | Broke l' \<Rightarrow> None
            | Completed l' \<Rightarrow> boundary k c rq l')
      else None)"

subsection \<open>What the code relies on from the host's sort\<close>

text \<open>
  Both comparators answer 1 when their first argument has the greater key and -1
  otherwise: the key is the time for audio events and the negated start for visits. For
  such a comparator the host returns the same elements in order of non-decreasing key.
  The comparator never answers 0, so the order among elements of equal key is the
  host's choice.
\<close>

definition keyComparator :: "('a \<Rightarrow> int) \<Rightarrow> 'a \<Rightarrow> 'a \<Rightarrow> int" where
  "keyComparator key a b = (if key a > key b then 1 else - 1)"

definition hostSort :: "(('a \<Rightarrow> 'a \<Rightarrow> int) \<Rightarrow> 'a list \<Rightarrow> 'a list) \<Rightarrow> bool" where
  "hostSort srt =
     (\<forall>key xs. mset (srt (keyComparator key) xs) = mset xs
              \<and> sorted (map key (srt (keyComparator key) xs)))"

text \<open>
  One such sort: insertion from left to right, each element placed in front of the
  first element that the comparator puts it before.
\<close>

fun insertBefore :: "('a \<Rightarrow> 'a \<Rightarrow> int) \<Rightarrow> 'a \<Rightarrow> 'a list \<Rightarrow> 'a list" where
  "insertBefore cmp x [] = [x]"
| "insertBefore cmp x (y # ys) =
     (if cmp x y < 0 then x # y # ys else y # insertBefore cmp x ys)"

definition insertionSort :: "('a \<Rightarrow> 'a \<Rightarrow> int) \<Rightarrow> 'a list \<Rightarrow> 'a list" where
  "insertionSort cmp xs = foldl (\<lambda>sorted x. insertBefore cmp x sorted) [] xs"

subsection \<open>Reading the rows of a report\<close>

fun rowTime :: "row \<Rightarrow> int option" where
  "rowTime (EventRow r t s) = Some s"
| "rowTime (AudioBaitRow n t p) = Some t"
| "rowTime r = None"


text \<open>The name in an audio bait row; other rows have none.\<close>

fun audioBaitName :: "row \<Rightarrow> string option option" where
  "audioBaitName (AudioBaitRow n t p) = Some n"
| "audioBaitName r = None"

fun isAudioBaitRow :: "row \<Rightarrow> bool" where
  "isAudioBaitRow (AudioBaitRow n t p) = True"
| "isAudioBaitRow r = False"

definition nonIncreasing :: "int list \<Rightarrow> bool" where
  "nonIncreasing ts = sorted_wrt (\<lambda>a b. b \<le> a) ts"

text \<open>
  Visits of equal start appear in \<open>returned\<close> in the order they have in \<open>fetched\<close>.
\<close>

definition tiesKeepFetchOrder :: "visit list \<Rightarrow> visit list \<Rightarrow> bool" where
  "tiesKeepFetchOrder fetched returned =
     (\<forall>t. map visitID (filter (\<lambda>v. start v = t) returned)
            = map visitID (filter (\<lambda>v. start v = t) fetched))"

subsection \<open>The rows of a visit as a merge of two lists\<close>

text \<open>
  The audio events that are still to be written, latest first: the event in hand and
  then the array from its end.
\<close>

definition pending :: "audio_event option \<Rightarrow> audio_event list \<Rightarrow> audio_event list" where
  "pending audioEvent audioEvents =
     (case audioEvent of None \<Rightarrow> rev audioEvents | Some a \<Rightarrow> a # rev audioEvents)"

text \<open>
  Before each event the pending audio events later than its start, then the event; after
  the last event the audio events that are left.
\<close>

fun interleave :: "audio_event list \<Rightarrow> visit_event list \<Rightarrow> row list" where
  "interleave waiting [] = map addAudioBaitRow waiting"
| "interleave waiting (ev # evs) =
     map addAudioBaitRow (takeWhile (\<lambda>a. dateTime a > eventStart ev) waiting)
       @ addEventRow ev
       # interleave (dropWhile (\<lambda>a. dateTime a > eventStart ev) waiting) evs"

subsection \<open>A device summary and a source to run the query on\<close>

text \<open>
  Modelled from the spec: \<^verbatim>\<open>DeviceSummary\<close>, its visit builder and the recordings
  come from \<^verbatim>\<open>./Visits\<close> and the models, which are not part of the file. A recording
  has a device, a time, a tag and the audio bait events found with it; a visit takes the
  tag of the recording that opens it. A recording within the
  visit interval of the start of its device's latest visit extends that visit,
  otherwise it opens a new one; a visit is complete once an older recording of its
  device has opened a later visit; the visits discarded as incomplete are remembered
  for their offsets. The device map has an entry for each device with a visit, its
  animals being the tags of its visits.
\<close>

record recording =
  rec_id :: nat
  rec_device :: nat
  recordingDateTime :: int
  rec_tag :: string
  rec_audio :: "audio_event list"

record summary_model =
  held :: "visit list"
  discarded :: "visit list"

definition visitInterval :: int where
  "visitInterval = 600000"

definition isWithinVisitInterval :: "int \<Rightarrow> int \<Rightarrow> bool" where
  "isWithinVisitInterval a b = (\<bar>a - b\<bar> \<le> visitInterval)"

definition eventOf :: "recording \<Rightarrow> visit_event" where
  "eventOf r = \<lparr> recID = rec_id r, trackID = 0, eventStart = recordingDateTime r \<rparr>"

definition openVisit :: "recording \<Rightarrow> nat \<Rightarrow> visit" where
  "openVisit r off =
     \<lparr> visitID = rec_id r, deviceId = rec_device r,
       start = recordingDateTime r, end_time = recordingDateTime r,
       queryOffset = int off, complete = False, assumedTag = rec_tag r,
       events = [eventOf r], audioBaitEvents = rec_audio r \<rparr>"

definition extendVisit :: "visit \<Rightarrow> recording \<Rightarrow> nat \<Rightarrow> visit" where
  "extendVisit v r off =
     v\<lparr> start := recordingDateTime r, queryOffset := int off,
        events := events v @ [eventOf r],
        audioBaitEvents := audioBaitEvents v @ rec_audio r \<rparr>"

text \<open>The list holds, for each device, its visits from the latest opened to the first.\<close>

fun consume :: "recording \<Rightarrow> nat \<Rightarrow> visit list \<Rightarrow> visit list" where
  "consume r off [] = [openVisit r off]"
| "consume r off (v # vs) =
     (if deviceId v = rec_device r
      then (if isWithinVisitInterval (start v) (recordingDateTime r)
            then extendVisit v r off # vs
            else openVisit r off # v # vs)
      else v # consume r off vs)"

fun feedPage :: "recording list \<Rightarrow> nat \<Rightarrow> visit list \<Rightarrow> visit list" where
  "feedPage [] off vs = vs"
| "feedPage (r # rs) off vs = feedPage rs (Suc off) (consume r off vs)"

fun completeOlder :: "nat list \<Rightarrow> visit list \<Rightarrow> visit list" where
  "completeOlder seen [] = []"
| "completeOlder seen (v # vs) =
     (if deviceId v \<in> set seen then v\<lparr>complete := True\<rparr> else v)
       # completeOlder (deviceId v # seen) vs"

definition leastOffset :: "visit list \<Rightarrow> int option" where
  "leastOffset vs = (case map queryOffset vs of [] \<Rightarrow> None | x # xs \<Rightarrow> Some (fold min xs x))"

definition incomplete :: "visit \<Rightarrow> bool" where
  "incomplete v = (\<not> complete v)"

text \<open>
  Modelled from the spec: the time-window source "returns a page of recordings plus total
  count"; here the recordings are a list and the count is what the source declares.
\<close>

definition page :: "recording list \<Rightarrow> nat \<Rightarrow> int \<Rightarrow> recording list" where
  "page rs off lim = take (nat lim) (drop off rs)"

definition animalsOf :: "nat \<Rightarrow> visit list \<Rightarrow> string list" where
  "animalsOf d vs = remdups (map assumedTag (filter (\<lambda>v. deviceId v = d) vs))"

definition modelCollaborators ::
  "int \<Rightarrow> recording list \<Rightarrow> file_row list \<Rightarrow> (summary_model, recording) collaborators" where
  "modelCollaborators declared rs files =
     \<lparr> findAll = (\<lambda>off lim. Inr (page rs off lim)),
       findAndCountAll = (\<lambda>off lim. Inr (declared, page rs off lim)),
       filterData = (\<lambda>r. r),
       newDeviceSummary = \<lparr> held = [], discarded = [] \<rparr>,
       generateVisits = (\<lambda>s rows off got. s\<lparr>held := feedPage rows off (held s)\<rparr>),
       checkForCompleteVisits = (\<lambda>s. s\<lparr>held := completeOlder [] (held s)\<rparr>),
       completeVisitsCount = (\<lambda>s. length (filter complete (held s))),
       markCompleted = (\<lambda>s. s\<lparr>held := map (\<lambda>v. v\<lparr>complete := True\<rparr>) (held s)\<rparr>),
       removeIncompleteVisits =
         (\<lambda>s. \<lparr> held = filter complete (held s),
                discarded = discarded s @ filter incomplete (held s) \<rparr>),
       allAudioFileIds = (\<lambda>s. remdups (map fileId (concat (map audioBaitEvents (held s))))),
       completeVisits = (\<lambda>s. filter complete (held s)),
       earliestIncompleteOffset = (\<lambda>s. leastOffset (filter incomplete (held s @ discarded s))),
       getMultiple = (\<lambda>ids. filter (\<lambda>f. file_id f \<in> set ids) files),
       sortVisits = insertionSort,
       sortAudioEvents = insertionSort,
       deviceEntries =
         (\<lambda>s. map (\<lambda>d. (d, animalsOf d (held s))) (remdups (map deviceId (held s)))) \<rparr>"

subsection \<open>Inputs to run the query on\<close>

text \<open>
  Two recordings of one device, two and a half hours apart, and a recording of a second
  device at the time of the earlier one, which has an audio bait event whose file the
  lookup does not know.
\<close>

definition lure :: audio_event where
  "lure = \<lparr> dateTime = 5, fileId = 3, volume = Some 10, fileName = None \<rparr>"

definition laterRecording :: recording where
  "laterRecording =
     \<lparr> rec_id = 1, rec_device = 7, recordingDateTime = 9000000,
       rec_tag = ''possum'', rec_audio = [] \<rparr>"

definition earlierRecording :: recording where
  "earlierRecording =
     \<lparr> rec_id = 2, rec_device = 7, recordingDateTime = 0,
       rec_tag = ''possum'', rec_audio = [lure] \<rparr>"

definition otherDeviceRecording :: recording where
  "otherDeviceRecording =
     \<lparr> rec_id = 3, rec_device = 8, recordingDateTime = 0,
       rec_tag = ''rat'', rec_audio = [] \<rparr>"

definition oneVisitRequest :: request where
  "oneVisitRequest = \<lparr> limit = Some 1, offset = None \<rparr>"

definition fiveVisitRequest :: request where
  "fiveVisitRequest = \<lparr> limit = Some 5, offset = None \<rparr>"

text \<open>
  A visit with events at 10 and at 0, stored latest first, and an audio bait event at 5.
\<close>

definition scenarioVisit :: visit where
  "scenarioVisit =
     \<lparr> visitID = 1, deviceId = 7, start = 0, end_time = 10, queryOffset = 0, complete = True,
       assumedTag = ''possum'',
       events = [\<lparr> recID = 2, trackID = 0, eventStart = 10 \<rparr>,
                 \<lparr> recID = 1, trackID = 0, eventStart = 0 \<rparr>],
       audioBaitEvents = [lure] \<rparr>"

definition twoVisits :: "(summary_model, recording) collaborators" where
  "twoVisits = modelCollaborators 2 [laterRecording, earlierRecording] []"

definition twoDevices :: "(summary_model, recording) collaborators" where
  "twoDevices = modelCollaborators 2 [earlierRecording, otherDeviceRecording] []"

definition shortSource :: "(summary_model, recording) collaborators" where
  "shortSource = modelCollaborators 100 [laterRecording, earlierRecording] []"

section \<open>Properties of the fetch loop\<close>

lemma loopBody_Completed:
  assumes "loopBody c rq l = Completed l'"
  shows "gotAllRecordings l' = Some False"
    and "q_limit l' = min (remainingVisits l' * 2) queryMax"
    and "remainingVisits l' = requestVisits rq - int (completeVisitsCount c (devSummary l'))"
  using assms
  by (auto simp: loopBody_def countPage_def consumePage_def Let_def geNumber_def
      arrayToNumber_def truthyBool_def split: sum.splits prod.splits if_splits)

lemma loopBody_Broke:
  assumes "loopBody c rq l = Broke l'"
  shows "\<exists>counted. fetchPage c l = Inr (counted, [])
           \<and> l' = l\<lparr>totalCount := counted, recordings := Some [],
                     numRecordings := numRecordings l, gotAllRecordings := Some True\<rparr>"
  using assms
  by (auto simp: loopBody_def countPage_def Let_def geNumber_def arrayToNumber_def
      split: sum.splits prod.splits if_splits)

lemma loopBody_empty_page:
  assumes "fetchPage c l = Inr (counted, [])"
  shows "loopBody c rq l =
           Broke (l\<lparr>totalCount := counted, recordings := Some [],
                    numRecordings := numRecordings l, gotAllRecordings := Some True\<rparr>)"
  using assms
  by (simp add: loopBody_def countPage_def Let_def geNumber_def arrayToNumber_def)

lemma boundary_Suc_back:
  "boundary (Suc k) c rq l0 = Some l \<Longrightarrow>
     \<exists>p. boundary k c rq l0 = Some p \<and> loopCondition p \<and> loopBody c rq p = Completed l"
proof (induction k arbitrary: l0)
  case 0
  then show ?case by (auto split: if_splits pass.splits)
next
  case (Suc k)
  from Suc.prems obtain l1 where c: "loopCondition l0" and b: "loopBody c rq l0 = Completed l1"
    and r: "boundary (Suc k) c rq l1 = Some l"
    by (auto split: if_splits pass.splits)
  from Suc.IH[OF r] obtain p where "boundary k c rq l1 = Some p" "loopCondition p" "loopBody c rq p = Completed l"
    by blast
  with c b show ?case by auto
qed

lemma boundary_Suc_forward:
  "boundary k c rq l0 = Some p \<Longrightarrow>
     boundary (Suc k) c rq l0 =
       (if loopCondition p
        then (case loopBody c rq p of Thrown e \<Rightarrow> None | Broke l' \<Rightarrow> None | Completed l' \<Rightarrow> Some l')
        else None)"
proof (induction k arbitrary: l0)
  case 0
  then show ?case by (auto split: pass.splits)
next
  case (Suc k)
  from Suc.prems obtain l1 where c: "loopCondition l0" and b: "loopBody c rq l0 = Completed l1"
    and r: "boundary k c rq l1 = Some p"
    by (auto split: if_splits pass.splits)
  have "boundary (Suc (Suc k)) c rq l0 = boundary (Suc k) c rq l1"
    using c b by simp
  with Suc.IH[OF r] show ?case by simp
qed

lemma boundary_not_got:
  "\<not> truthyBool (gotAllRecordings l0) \<Longrightarrow> boundary k c rq l0 = Some l
     \<Longrightarrow> \<not> truthyBool (gotAllRecordings l)"
proof (induction k arbitrary: l0)
  case 0
  then show ?case by simp
next
  case (Suc k)
  from Suc.prems(2) obtain l1 where b: "loopBody c rq l0 = Completed l1"
    and r: "boundary k c rq l1 = Some l"
    by (auto split: if_splits pass.splits)
  from loopBody_Completed(1)[OF b] have "\<not> truthyBool (gotAllRecordings l1)"
    by (simp add: truthyBool_def)
  from Suc.IH[OF this r] show ?case .
qed

lemma fetchLoop_boundary:
  "boundary k c rq l0 = Some l \<Longrightarrow> fetchLoop (k + n) c rq l0 = fetchLoop n c rq l"
proof (induction k arbitrary: l0)
  case 0
  then show ?case by simp
next
  case (Suc k)
  from Suc.prems obtain l1 where c: "loopCondition l0" and b: "loopBody c rq l0 = Completed l1"
    and r: "boundary k c rq l1 = Some l"
    by (auto split: if_splits pass.splits)
  from Suc.IH[OF r] c b show ?case by simp
qed

lemma fetchLoop_exit:
  "\<not> truthyBool (gotAllRecordings l) \<Longrightarrow> fetchLoop n c rq l = Some (Inr l')
     \<Longrightarrow> truthyBool (gotAllRecordings l') \<or> remainingVisits l' \<le> 0"
proof (induction n arbitrary: l)
  case 0
  then show ?case by (auto simp: loopCondition_def split: if_splits)
next
  case (Suc n)
  show ?case
  proof (cases "loopCondition l")
    case False
    with Suc.prems show ?thesis by (auto simp: loopCondition_def)
  next
    case True
    show ?thesis
    proof (cases "loopBody c rq l")
      case (Thrown e)
      with True Suc.prems show ?thesis by simp
    next
      case (Broke l1)
      from loopBody_Broke[OF Broke] have "gotAllRecordings l1 = Some True" by auto
      with True Broke Suc.prems show ?thesis by (auto simp: truthyBool_def)
    next
      case (Completed l1)
      from loopBody_Completed(1)[OF Completed] have g: "\<not> truthyBool (gotAllRecordings l1)"
        by (simp add: truthyBool_def)
      from True Completed Suc.prems have "fetchLoop n c rq l1 = Some (Inr l')" by simp
      from Suc.IH[OF g this] show ?thesis .
    qed
  qed
qed

lemma fetchLoop_stop: "\<not> loopCondition l \<Longrightarrow> fetchLoop n c rq l = Some (Inr l)"
  by (cases n) simp_all

lemma initLocals_not_got: "\<not> truthyBool (gotAllRecordings (initLocals c rq))"
  by (simp add: initLocals_def truthyBool_def)

subsection \<open>The flag gotAllRecordings\<close>

text \<open>
  C1 says that after every fetch the flag \<^verbatim>\<open>gotAllRecordings\<close> is true exactly when
  the rows of the page plus the current offset reach the total count reported by the
  source. The code compares with the array \<^verbatim>\<open>recordings\<close>, not with
  \<^verbatim>\<open>totalCount\<close>: on a source of two recordings that returns both in the first page
  (offset 0, count 2) the flag is false after the pass, and the query reports that there
  are more visits although both recordings were read.
\<close>

theorem gotAllRecordings_false_on_full_page:
  "(case loopBody twoVisits oneVisitRequest (initLocals twoVisits oneVisitRequest) of
      Completed l \<Rightarrow>
        map_option length (recordings l) = Some 2
        \<and> q_offset (initLocals twoVisits oneVisitRequest) = 0
        \<and> totalCount l = Some 2
        \<and> gotAllRecordings l = Some False
    | _ \<Rightarrow> False)
   \<and> (case queryVisits 1 twoVisits oneVisitRequest of
        Some (Inr res) \<Rightarrow>
          res_hasMoreVisits res \<and> res_numRecordings res = 2
          \<and> res_totalRecordings res = Some 2
      | _ \<Rightarrow> False)"
  by code_simp

subsection \<open>When the loop ends\<close>

text \<open>
  As the loop is written, the flag is never true where the condition is tested, and a
  state the loop returns has the flag true or no visits remaining.
\<close>

lemma flag_false_where_tested:
  "boundary k c rq (initLocals c rq) = Some l \<Longrightarrow> \<not> truthyBool (gotAllRecordings l)"
  by (rule boundary_not_got[OF initLocals_not_got])

text \<open>
  C2 says that the loop makes no further fetch once \<^verbatim>\<open>gotAllRecordings\<close> is true or
  \<^verbatim>\<open>remainingVisits <= 0\<close> where the condition is tested. The code does not stop
  when all recordings are read. On a source of two recordings that returns both in the
  first page, with five visits asked for, the first pass has read everything (2 rows at
  offset 0, count 2); the condition still passes and a second fetch is made, at offset 2,
  which returns no rows. The condition is written
  \<^verbatim>\<open>gotAllRecordings || remainingVisits > 0\<close>: with the flag true and no visit
  remaining it passes as well.
\<close>

theorem fetches_again_after_all_read:
  "(case boundary (Suc 0) twoVisits fiveVisitRequest (initLocals twoVisits fiveVisitRequest) of
      None \<Rightarrow> False
    | Some l \<Rightarrow>
        numRecordings l = 2 \<and> totalCount l = Some 2 \<and> builderGet l = (2, 8)
        \<and> remainingVisits l = 4
        \<and> gotAllRecordings l = Some False
        \<and> loopCondition l
        \<and> fetchPage twoVisits l = Inr (Some 2, []))
   \<and> loopCondition
        ((initLocals twoVisits fiveVisitRequest)
           \<lparr>gotAllRecordings := Some True, remainingVisits := 0\<rparr>)"
  by code_simp

subsection \<open>The limit of each fetch\<close>

text \<open>
  C3: in every iteration after the first the limit of the fetch is
  \<^verbatim>\<open>min(remainingVisits * 2, queryMax)\<close> with \<^verbatim>\<open>remainingVisits\<close> the requested
  visits less the complete visits counted by the summary; in the first iteration, when
  the caller gave a limit, it is \<^verbatim>\<open>min(limit * 2, queryMax)\<close>. That limit is the
  limit of the builder's query and the limit with which the fetch of the pass calls the
  source: \<^verbatim>\<open>findAll\<close> or \<^verbatim>\<open>findAndCountAll\<close> after the first pass,
  \<^verbatim>\<open>findAndCountAll\<close> in the first.
\<close>

theorem fetch_limit_each_iteration:
  "(boundary (Suc k) c rq (initLocals c rq) = Some l \<longrightarrow>
      snd (builderGet l) = min (remainingVisits l * 2) queryMax
      \<and> remainingVisits l = requestVisits rq - int (completeVisitsCount c (devSummary l))
      \<and> fetchPage c l =
          (if truthyNumber (totalCount l)
           then (case findAll c (q_offset l) (min (remainingVisits l * 2) queryMax) of
                   Inl e \<Rightarrow> Inl e
                 | Inr rows \<Rightarrow> Inr (totalCount l, rows))
           else (case findAndCountAll c (q_offset l) (min (remainingVisits l * 2) queryMax) of
                   Inl e \<Rightarrow> Inl e
                 | Inr (m, rows) \<Rightarrow> Inr (Some m, rows))))
   \<and> (limit rq = Some n \<longrightarrow> loopCondition (initLocals c rq) \<longrightarrow>
        snd (builderGet (initLocals c rq)) = min (n * 2) queryMax
        \<and> fetchPage c (initLocals c rq) =
            (case findAndCountAll c (requestOffset rq) (min (n * 2) queryMax) of
               Inl e \<Rightarrow> Inl e
             | Inr (m, rows) \<Rightarrow> Inr (Some m, rows)))"
proof (intro conjI impI)
  assume "boundary (Suc k) c rq (initLocals c rq) = Some l"
  from boundary_Suc_back[OF this] obtain p where "loopBody c rq p = Completed l" by blast
  from loopBody_Completed(2,3)[OF this]
  have lim: "q_limit l = min (remainingVisits l * 2) queryMax"
    and remaining:
      "remainingVisits l = requestVisits rq - int (completeVisitsCount c (devSummary l))"
    by simp_all
  from lim show "snd (builderGet l) = min (remainingVisits l * 2) queryMax"
    by (simp add: builderGet_def)
  from remaining
  show "remainingVisits l = requestVisits rq - int (completeVisitsCount c (devSummary l))" .
  from lim show "fetchPage c l =
          (if truthyNumber (totalCount l)
           then (case findAll c (q_offset l) (min (remainingVisits l * 2) queryMax) of
                   Inl e \<Rightarrow> Inl e
                 | Inr rows \<Rightarrow> Inr (totalCount l, rows))
           else (case findAndCountAll c (q_offset l) (min (remainingVisits l * 2) queryMax) of
                   Inl e \<Rightarrow> Inl e
                 | Inr (m, rows) \<Rightarrow> Inr (Some m, rows)))"
    by (simp add: fetchPage_def builderGet_def)
next
  assume n: "limit rq = Some n" and first: "loopCondition (initLocals c rq)"
  from n first have lim: "q_limit (initLocals c rq) = min (n * 2) queryMax"
    by (auto simp: initLocals_def loopCondition_def queryLimit_def requestVisits_def
        truthyBool_def truthyNumber_def)
  from lim show "snd (builderGet (initLocals c rq)) = min (n * 2) queryMax"
    by (simp add: builderGet_def)
  have "totalCount (initLocals c rq) = None" "q_offset (initLocals c rq) = requestOffset rq"
    by (simp_all add: initLocals_def)
  with lim show "fetchPage c (initLocals c rq) =
            (case findAndCountAll c (requestOffset rq) (min (n * 2) queryMax) of
               Inl e \<Rightarrow> Inl e
             | Inr (m, rows) \<Rightarrow> Inr (Some m, rows))"
    by (simp add: fetchPage_def builderGet_def truthyNumber_def)
qed

theorem fetch_limit_each_iteration_witness:
  "(\<exists>l. boundary (Suc 0) shortSource fiveVisitRequest (initLocals shortSource fiveVisitRequest)
          = Some l
        \<and> loopCondition l
        \<and> snd (builderGet l) = min (remainingVisits l * 2) queryMax
        \<and> remainingVisits l
            = requestVisits fiveVisitRequest
                - int (completeVisitsCount shortSource (devSummary l))
        \<and> fetchPage shortSource l =
            (if truthyNumber (totalCount l)
             then (case findAll shortSource (q_offset l) (min (remainingVisits l * 2) queryMax) of
                     Inl e \<Rightarrow> Inl e
                   | Inr rows \<Rightarrow> Inr (totalCount l, rows))
             else (case findAndCountAll shortSource (q_offset l)
                          (min (remainingVisits l * 2) queryMax) of
                     Inl e \<Rightarrow> Inl e
                   | Inr (m, rows) \<Rightarrow> Inr (Some m, rows)))
        \<and> snd (builderGet l) = 8 \<and> truthyNumber (totalCount l))
   \<and> limit oneVisitRequest = Some 1
   \<and> loopCondition (initLocals twoVisits oneVisitRequest)
   \<and> snd (builderGet (initLocals twoVisits oneVisitRequest)) = min (1 * 2) queryMax
   \<and> fetchPage twoVisits (initLocals twoVisits oneVisitRequest) =
       (case findAndCountAll twoVisits (requestOffset oneVisitRequest) (min (1 * 2) queryMax) of
          Inl e \<Rightarrow> Inl e
        | Inr (m, rows) \<Rightarrow> Inr (Some m, rows))
   \<and> snd (builderGet (initLocals twoVisits oneVisitRequest)) = 2"
proof -
  let ?i = "initLocals shortSource fiveVisitRequest"
  have "case boundary (Suc 0) shortSource fiveVisitRequest ?i of
          None \<Rightarrow> False
        | Some l \<Rightarrow> loopCondition l \<and> snd (builderGet l) = 8 \<and> truthyNumber (totalCount l)"
    by code_simp
  then obtain l1 where b1: "boundary (Suc 0) shortSource fiveVisitRequest ?i = Some l1"
    and c1: "loopCondition l1" and v1: "snd (builderGet l1) = 8"
    and t1: "truthyNumber (totalCount l1)"
    by (auto split: option.splits simp del: boundary.simps)
  have h1: "limit oneVisitRequest = Some 1" by code_simp
  have h2: "loopCondition (initLocals twoVisits oneVisitRequest)" by code_simp
  have v2: "snd (builderGet (initLocals twoVisits oneVisitRequest)) = 2" by code_simp
  note claim1 = fetch_limit_each_iteration[of 0 shortSource fiveVisitRequest l1,
      THEN conjunct1, THEN mp, OF b1]
  note claim2 = fetch_limit_each_iteration[of 0 twoVisits oneVisitRequest l1 1,
      THEN conjunct2, THEN mp, THEN mp, OF h1 h2]
  have first:
    "\<exists>l. boundary (Suc 0) shortSource fiveVisitRequest ?i = Some l
        \<and> loopCondition l
        \<and> snd (builderGet l) = min (remainingVisits l * 2) queryMax
        \<and> remainingVisits l
            = requestVisits fiveVisitRequest
                - int (completeVisitsCount shortSource (devSummary l))
        \<and> fetchPage shortSource l =
            (if truthyNumber (totalCount l)
             then (case findAll shortSource (q_offset l) (min (remainingVisits l * 2) queryMax) of
                     Inl e \<Rightarrow> Inl e
                   | Inr rows \<Rightarrow> Inr (totalCount l, rows))
             else (case findAndCountAll shortSource (q_offset l)
                          (min (remainingVisits l * 2) queryMax) of
                     Inl e \<Rightarrow> Inl e
                   | Inr (m, rows) \<Rightarrow> Inr (Some m, rows)))
        \<and> snd (builderGet l) = 8 \<and> truthyNumber (totalCount l)"
  proof (rule exI[of _ l1], intro conjI)
    show "boundary (Suc 0) shortSource fiveVisitRequest ?i = Some l1" by (rule b1)
    show "loopCondition l1" by (rule c1)
    show "snd (builderGet l1) = min (remainingVisits l1 * 2) queryMax"
      using claim1 by (rule conjunct1)
    show "remainingVisits l1
            = requestVisits fiveVisitRequest
                - int (completeVisitsCount shortSource (devSummary l1))"
      using claim1 by (rule conjunct2[THEN conjunct1])
    show "fetchPage shortSource l1 =
            (if truthyNumber (totalCount l1)
             then (case findAll shortSource (q_offset l1) (min (remainingVisits l1 * 2) queryMax) of
                     Inl e \<Rightarrow> Inl e
                   | Inr rows \<Rightarrow> Inr (totalCount l1, rows))
             else (case findAndCountAll shortSource (q_offset l1)
                          (min (remainingVisits l1 * 2) queryMax) of
                     Inl e \<Rightarrow> Inl e
                   | Inr (m, rows) \<Rightarrow> Inr (Some m, rows)))"
      using claim1 by (rule conjunct2[THEN conjunct2])
    show "snd (builderGet l1) = 8" by (rule v1)
    show "truthyNumber (totalCount l1)" by (rule t1)
  qed
  show ?thesis
  proof (intro conjI)
    show "limit oneVisitRequest = Some 1" by (rule h1)
    show "loopCondition (initLocals twoVisits oneVisitRequest)" by (rule h2)
    show "snd (builderGet (initLocals twoVisits oneVisitRequest)) = min (1 * 2) queryMax"
      using claim2 by (rule conjunct1)
    show "fetchPage twoVisits (initLocals twoVisits oneVisitRequest) =
       (case findAndCountAll twoVisits (requestOffset oneVisitRequest) (min (1 * 2) queryMax) of
          Inl e \<Rightarrow> Inl e
        | Inr (m, rows) \<Rightarrow> Inr (Some m, rows))"
      using claim2 by (rule conjunct2)
    show "snd (builderGet (initLocals twoVisits oneVisitRequest)) = 2" by (rule v2)
  qed (rule first)
qed

subsection \<open>An empty page\<close>

lemma queryVisits_from_boundary:
  assumes "boundary k c rq (initLocals c rq) = Some l"
    and "fetchLoop n c rq l = Some (Inr l')"
  shows "queryVisits (k + n) c rq = Some (Inr (finishQuery c l'))"
  using fetchLoop_boundary[OF assms(1), of n] assms(2) by (simp add: queryVisits_def)

text \<open>
  C4: a fetch that returns no rows, whatever the count the source declared, ends the
  loop in that pass: there is no further test of the condition and no further fetch, the
  loop returns a state and not an error, the summary is the one built before the empty
  page, and the query returns the visits of that summary, finalised and sorted.
\<close>

theorem empty_page_ends_the_loop:
  assumes "boundary k c rq (initLocals c rq) = Some l"
    and "loopCondition l"
    and "fetchPage c l = Inr (counted, [])"
  shows "boundary (Suc k) c rq (initLocals c rq) = None
       \<and> (\<forall>n. \<exists>l'. fetchLoop (Suc n) c rq l = Some (Inr l')
                \<and> devSummary l' = devSummary l
                \<and> numRecordings l' = numRecordings l
                \<and> queryVisits (k + Suc n) c rq = Some (Inr (finishQuery c l'))
                \<and> res_summary (finishQuery c l') = markCompleted c (devSummary l)
                \<and> res_visits (finishQuery c l') =
                    map (nameAudioEvents (audioFileNames (getMultiple c
                           (allAudioFileIds c (markCompleted c (devSummary l))))))
                      (sortVisits c compareVisits
                         (completeVisits c (markCompleted c (devSummary l)))))"
proof -
  let ?l' = "l\<lparr>totalCount := counted, recordings := Some [],
                numRecordings := numRecordings l, gotAllRecordings := Some True\<rparr>"
  have body: "loopBody c rq l = Broke ?l'"
    using loopBody_empty_page[OF assms(3)] .
  have none: "boundary (Suc k) c rq (initLocals c rq) = None"
    using boundary_Suc_forward[OF assms(1)] assms(2) body by simp
  have loop: "fetchLoop (Suc n) c rq l = Some (Inr ?l')" for n
    using assms(2) body by simp
  have fin: "res_summary (finishQuery c ?l') = markCompleted c (devSummary l)
       \<and> res_visits (finishQuery c ?l') =
           map (nameAudioEvents (audioFileNames (getMultiple c
                  (allAudioFileIds c (markCompleted c (devSummary l))))))
             (sortVisits c compareVisits (completeVisits c (markCompleted c (devSummary l))))"
    by (simp add: finishQuery_def Let_def truthyBool_def)
  have "\<exists>l'. fetchLoop (Suc n) c rq l = Some (Inr l')
                \<and> devSummary l' = devSummary l
                \<and> numRecordings l' = numRecordings l
                \<and> queryVisits (k + Suc n) c rq = Some (Inr (finishQuery c l'))
                \<and> res_summary (finishQuery c l') = markCompleted c (devSummary l)
                \<and> res_visits (finishQuery c l') =
                    map (nameAudioEvents (audioFileNames (getMultiple c
                           (allAudioFileIds c (markCompleted c (devSummary l))))))
                      (sortVisits c compareVisits
                         (completeVisits c (markCompleted c (devSummary l))))" for n
  proof (intro exI[of _ ?l'] conjI)
    show "fetchLoop (Suc n) c rq l = Some (Inr ?l')" by (rule loop)
    show "queryVisits (k + Suc n) c rq = Some (Inr (finishQuery c ?l'))"
      by (rule queryVisits_from_boundary[OF assms(1) loop])
  qed (use fin in simp_all)
  with none show ?thesis by blast
qed

theorem empty_page_ends_the_loop_witness:
  "\<exists>l counted.
     boundary (Suc 0) shortSource fiveVisitRequest (initLocals shortSource fiveVisitRequest)
       = Some l
     \<and> loopCondition l
     \<and> fetchPage shortSource l = Inr (counted, [])
     \<and> int (q_offset l) < 100 \<and> totalCount l = Some 100
     \<and> boundary (Suc (Suc 0)) shortSource fiveVisitRequest
          (initLocals shortSource fiveVisitRequest) = None
     \<and> (\<exists>l'. fetchLoop (Suc 0) shortSource fiveVisitRequest l = Some (Inr l')
           \<and> devSummary l' = devSummary l
           \<and> queryVisits (Suc 0 + Suc 0) shortSource fiveVisitRequest
               = Some (Inr (finishQuery shortSource l')))"
proof -
  let ?i = "initLocals shortSource fiveVisitRequest"
  have "case boundary (Suc 0) shortSource fiveVisitRequest ?i of
          None \<Rightarrow> False
        | Some l \<Rightarrow> loopCondition l \<and> fetchPage shortSource l = Inr (Some 100, [])
                    \<and> int (q_offset l) < 100 \<and> totalCount l = Some 100"
    by code_simp
  then obtain l1 where b1: "boundary (Suc 0) shortSource fiveVisitRequest ?i = Some l1"
    and c1: "loopCondition l1"
    and f1: "fetchPage shortSource l1 = Inr (Some 100, [])"
    and o1: "int (q_offset l1) < 100" "totalCount l1 = Some 100"
    by (auto split: option.splits simp del: boundary.simps)
  from empty_page_ends_the_loop[OF b1 c1 f1]
  have none: "boundary (Suc (Suc 0)) shortSource fiveVisitRequest ?i = None"
    and inner: "\<exists>l'. fetchLoop (Suc 0) shortSource fiveVisitRequest l1 = Some (Inr l')
           \<and> devSummary l' = devSummary l1
           \<and> queryVisits (Suc 0 + Suc 0) shortSource fiveVisitRequest
               = Some (Inr (finishQuery shortSource l'))"
    by blast+
  show ?thesis
  proof (rule exI[of _ l1], rule exI[of _ "Some 100"], intro conjI)
    show "boundary (Suc 0) shortSource fiveVisitRequest ?i = Some l1" by (rule b1)
    show "loopCondition l1" by (rule c1)
    show "fetchPage shortSource l1 = Inr (Some 100, [])" by (rule f1)
    show "int (q_offset l1) < 100" by (rule o1(1))
    show "totalCount l1 = Some 100" by (rule o1(2))
    show "boundary (Suc (Suc 0)) shortSource fiveVisitRequest ?i = None" by (rule none)
  qed (rule inner)
qed

section \<open>The insertion sort is a host sort\<close>

lemma mset_insertBefore: "mset (insertBefore cmp x xs) = add_mset x (mset xs)"
  by (induction xs) auto

lemma set_insertBefore: "set (insertBefore cmp x xs) = insert x (set xs)"
  by (induction xs) auto

lemma mset_insertions:
  "mset (foldl (\<lambda>sorted x. insertBefore cmp x sorted) acc xs) = mset acc + mset xs"
  by (induction xs arbitrary: acc) (auto simp: mset_insertBefore)

lemma sorted_insertBefore:
  "sorted (map key xs) \<Longrightarrow> sorted (map key (insertBefore (keyComparator key) x xs))"
  by (induction xs) (auto simp: keyComparator_def set_insertBefore)

lemma sorted_insertions:
  "sorted (map key acc) \<Longrightarrow>
     sorted (map key (foldl (\<lambda>sorted x. insertBefore (keyComparator key) x sorted) acc xs))"
  by (induction xs arbitrary: acc) (auto simp: sorted_insertBefore)

lemma hostSort_insertionSort: "hostSort insertionSort"
  by (simp add: hostSort_def insertionSort_def mset_insertions sorted_insertions)

lemma compareVisits_key: "compareVisits = keyComparator (\<lambda>v. - start v)"
  by (auto simp: fun_eq_iff compareVisits_def keyComparator_def)

lemma compareAudioEvents_key: "compareAudioEvents = keyComparator dateTime"
  by (auto simp: fun_eq_iff compareAudioEvents_def keyComparator_def)

lemma hostSort_visits:
  assumes "hostSort srt"
  shows "mset (srt compareVisits vs) = mset vs"
    and "nonIncreasing (map start (srt compareVisits vs))"
proof -
  from assms have m: "mset (srt (keyComparator (\<lambda>v. - start v)) vs) = mset vs"
    and s: "sorted (map (\<lambda>v. - start v) (srt (keyComparator (\<lambda>v. - start v)) vs))"
    by (simp_all add: hostSort_def)
  from m show "mset (srt compareVisits vs) = mset vs"
    by (simp add: compareVisits_key)
  from s show "nonIncreasing (map start (srt compareVisits vs))"
    by (simp add: nonIncreasing_def compareVisits_key sorted_wrt_map)
qed

lemma hostSort_audio:
  assumes "hostSort srt"
  shows "mset (srt compareAudioEvents as) = mset as"
    and "sorted (map dateTime (srt compareAudioEvents as))"
  using assms by (simp_all add: hostSort_def compareAudioEvents_key)

section \<open>The result of queryVisits\<close>

lemma start_nameAudioEvents [simp]: "start (nameAudioEvents names v) = start v"
  by (simp add: nameAudioEvents_def)

lemma queryOffset_nameAudioEvents [simp]: "queryOffset (nameAudioEvents names v) = queryOffset v"
  by (simp add: nameAudioEvents_def)

lemma visitID_nameAudioEvents [simp]: "visitID (nameAudioEvents names v) = visitID v"
  by (simp add: nameAudioEvents_def)

lemma queryVisits_result:
  assumes "queryVisits fuel c rq = Some (Inr res)"
  shows "\<exists>l. fetchLoop fuel c rq (initLocals c rq) = Some (Inr l) \<and> res = finishQuery c l"
  using assms by (auto simp: queryVisits_def split: option.splits sum.splits)

lemma nonIncreasing_last:
  "nonIncreasing ts \<Longrightarrow> ts \<noteq> [] \<Longrightarrow> t \<in> set ts \<Longrightarrow> last ts \<le> t"
  by (cases ts rule: rev_cases) (auto simp: nonIncreasing_def sorted_wrt_append)

subsection \<open>Finalisation\<close>

text \<open>
  C8: when the loop has ended, the summary is finalised once, before anything of the
  result is computed: by \<^verbatim>\<open>markCompleted\<close> when \<^verbatim>\<open>gotAllRecordings\<close> is true, by
  \<^verbatim>\<open>removeIncompleteVisits\<close> otherwise. The summary of the result is the outcome of
  that one call on the summary the loop ended with, the visits and the offset are read
  from it, and \<^verbatim>\<open>hasMoreVisits\<close> is the negation of the flag.
\<close>

theorem finalised_once_before_result:
  assumes "queryVisits fuel c rq = Some (Inr res)"
  shows "\<exists>l. fetchLoop fuel c rq (initLocals c rq) = Some (Inr l)
           \<and> res_summary res =
               (if truthyBool (gotAllRecordings l) then markCompleted c (devSummary l)
                else removeIncompleteVisits c (devSummary l))
           \<and> res_hasMoreVisits res = (\<not> truthyBool (gotAllRecordings l))
           \<and> res_visits res =
               map (nameAudioEvents (audioFileNames (getMultiple c
                      (allAudioFileIds c (res_summary res)))))
                 (sortVisits c compareVisits (completeVisits c (res_summary res)))
           \<and> res_numVisits res = length (res_visits res)"
proof -
  from queryVisits_result[OF assms] obtain l
    where l: "fetchLoop fuel c rq (initLocals c rq) = Some (Inr l)" and r: "res = finishQuery c l"
    by blast
  show ?thesis
  proof (intro exI[of _ l] conjI)
    show "fetchLoop fuel c rq (initLocals c rq) = Some (Inr l)" by (rule l)
  qed (simp_all add: r finishQuery_def Let_def)
qed

theorem finalised_once_before_result_witness:
  "(\<exists>res l. queryVisits (Suc 0) twoVisits oneVisitRequest = Some (Inr res)
       \<and> fetchLoop (Suc 0) twoVisits oneVisitRequest (initLocals twoVisits oneVisitRequest)
           = Some (Inr l)
       \<and> res_summary res = removeIncompleteVisits twoVisits (devSummary l)
       \<and> res_hasMoreVisits res)
   \<and> (\<exists>res l. queryVisits (Suc (Suc 0)) shortSource fiveVisitRequest = Some (Inr res)
       \<and> fetchLoop (Suc (Suc 0)) shortSource fiveVisitRequest
            (initLocals shortSource fiveVisitRequest) = Some (Inr l)
       \<and> res_summary res = markCompleted shortSource (devSummary l)
       \<and> \<not> res_hasMoreVisits res)"
proof -
  have "case queryVisits (Suc 0) twoVisits oneVisitRequest of
          Some (Inr res) \<Rightarrow> res_hasMoreVisits res | _ \<Rightarrow> False"
    by code_simp
  then obtain res1 where q1: "queryVisits (Suc 0) twoVisits oneVisitRequest = Some (Inr res1)"
    and h1: "res_hasMoreVisits res1"
    by (auto split: option.splits sum.splits)
  from finalised_once_before_result[OF q1] h1 obtain l1 where
    "fetchLoop (Suc 0) twoVisits oneVisitRequest (initLocals twoVisits oneVisitRequest)
       = Some (Inr l1)"
    "res_summary res1 = removeIncompleteVisits twoVisits (devSummary l1)"
    by (auto split: if_splits simp del: fetchLoop.simps)
  with q1 h1 have first:
    "\<exists>res l. queryVisits (Suc 0) twoVisits oneVisitRequest = Some (Inr res)
       \<and> fetchLoop (Suc 0) twoVisits oneVisitRequest (initLocals twoVisits oneVisitRequest)
           = Some (Inr l)
       \<and> res_summary res = removeIncompleteVisits twoVisits (devSummary l)
       \<and> res_hasMoreVisits res"
    by blast
  have "case queryVisits (Suc (Suc 0)) shortSource fiveVisitRequest of
          Some (Inr res) \<Rightarrow> \<not> res_hasMoreVisits res | _ \<Rightarrow> False"
    by code_simp
  then obtain res2
    where q2: "queryVisits (Suc (Suc 0)) shortSource fiveVisitRequest = Some (Inr res2)"
    and h2: "\<not> res_hasMoreVisits res2"
    by (auto split: option.splits sum.splits)
  from finalised_once_before_result[OF q2] h2 obtain l2 where
    "fetchLoop (Suc (Suc 0)) shortSource fiveVisitRequest
       (initLocals shortSource fiveVisitRequest) = Some (Inr l2)"
    "res_summary res2 = markCompleted shortSource (devSummary l2)"
    by (auto split: if_splits simp del: fetchLoop.simps)
  with q2 h2 have second:
    "\<exists>res l. queryVisits (Suc (Suc 0)) shortSource fiveVisitRequest = Some (Inr res)
       \<and> fetchLoop (Suc (Suc 0)) shortSource fiveVisitRequest
            (initLocals shortSource fiveVisitRequest) = Some (Inr l)
       \<and> res_summary res = markCompleted shortSource (devSummary l)
       \<and> \<not> res_hasMoreVisits res"
    by blast
  from first second show ?thesis by (rule conjI)
qed

subsection \<open>The offset to resume from\<close>

text \<open>
  C6: the \<^verbatim>\<open>queryOffset\<close> of the result is what \<^verbatim>\<open>earliestIncompleteOffset()\<close>
  returns on the finalised summary; when that is null and a visit is returned, it is
  the \<^verbatim>\<open>queryOffset\<close> of the last returned visit plus one, and with a host sort that
  visit has the oldest start of the returned visits. With no offset and no visit the
  result has none.
\<close>

theorem queryOffset_of_result:
  assumes "queryVisits fuel c rq = Some (Inr res)"
  shows "(case earliestIncompleteOffset c (res_summary res) of
            Some off \<Rightarrow> res_queryOffset res = Some off
          | None \<Rightarrow>
              res_queryOffset res =
                (if 0 < length (res_visits res)
                 then Some (queryOffset (last (res_visits res)) + 1) else None))
       \<and> (hostSort (sortVisits c) \<longrightarrow>
            (\<forall>v \<in> set (res_visits res). start (last (res_visits res)) \<le> start v))"
proof -
  from queryVisits_result[OF assms] obtain l where r: "res = finishQuery c l"
    by blast
  let ?ds = "res_summary res"
  let ?sorted = "sortVisits c compareVisits (completeVisits c ?ds)"
  have vs: "res_visits res =
      map (nameAudioEvents (audioFileNames (getMultiple c (allAudioFileIds c ?ds)))) ?sorted"
    by (simp add: r finishQuery_def Let_def)
  have off: "res_queryOffset res =
      (if earliestIncompleteOffset c ?ds = None \<and> 0 < length ?sorted
       then Some (queryOffset (last ?sorted) + 1) else earliestIncompleteOffset c ?ds)"
    by (simp add: r finishQuery_def Let_def)
  have first: "case earliestIncompleteOffset c ?ds of
            Some off \<Rightarrow> res_queryOffset res = Some off
          | None \<Rightarrow>
              res_queryOffset res =
                (if 0 < length (res_visits res)
                 then Some (queryOffset (last (res_visits res)) + 1) else None)"
    by (simp add: off vs last_map split: option.splits)
  have second: "start (last (res_visits res)) \<le> start v"
    if h: "hostSort (sortVisits c)" and v: "v \<in> set (res_visits res)" for v
  proof -
    from hostSort_visits(2)[OF h]
    have "nonIncreasing (map start ?sorted)" .
    then have n: "nonIncreasing (map start (res_visits res))"
      by (simp add: vs comp_def)
    from v have ne: "map start (res_visits res) \<noteq> []" by auto
    from v have "start v \<in> set (map start (res_visits res))" by simp
    from nonIncreasing_last[OF n ne this] ne show ?thesis
      by (simp add: last_map)
  qed
  from first second show ?thesis by blast
qed

theorem queryOffset_of_result_witness:
  "(\<exists>res. queryVisits (Suc 0) twoVisits oneVisitRequest = Some (Inr res)
       \<and> earliestIncompleteOffset twoVisits (res_summary res) = Some 1
       \<and> res_queryOffset res = Some 1)
   \<and> (\<exists>res. queryVisits (Suc (Suc 0)) shortSource fiveVisitRequest = Some (Inr res)
       \<and> earliestIncompleteOffset shortSource (res_summary res) = None
       \<and> 0 < length (res_visits res)
       \<and> res_queryOffset res = Some (queryOffset (last (res_visits res)) + 1)
       \<and> hostSort (sortVisits shortSource)
       \<and> last (res_visits res) \<in> set (res_visits res)
       \<and> start (last (res_visits res)) \<le> start (last (res_visits res)))"
proof -
  have "case queryVisits (Suc 0) twoVisits oneVisitRequest of
          Some (Inr res) \<Rightarrow> earliestIncompleteOffset twoVisits (res_summary res) = Some 1
        | _ \<Rightarrow> False"
    by code_simp
  then obtain res1 where q1: "queryVisits (Suc 0) twoVisits oneVisitRequest = Some (Inr res1)"
    and e1: "earliestIncompleteOffset twoVisits (res_summary res1) = Some 1"
    by (auto split: option.splits sum.splits)
  from queryOffset_of_result[OF q1] e1 have "res_queryOffset res1 = Some 1"
    by simp
  with q1 e1 have first:
    "\<exists>res. queryVisits (Suc 0) twoVisits oneVisitRequest = Some (Inr res)
       \<and> earliestIncompleteOffset twoVisits (res_summary res) = Some 1
       \<and> res_queryOffset res = Some 1"
    by blast
  have "case queryVisits (Suc (Suc 0)) shortSource fiveVisitRequest of
          Some (Inr res) \<Rightarrow> earliestIncompleteOffset shortSource (res_summary res) = None
                           \<and> 0 < length (res_visits res)
        | _ \<Rightarrow> False"
    by code_simp
  then obtain res2
    where q2: "queryVisits (Suc (Suc 0)) shortSource fiveVisitRequest = Some (Inr res2)"
    and e2: "earliestIncompleteOffset shortSource (res_summary res2) = None"
    and n2: "0 < length (res_visits res2)"
    by (auto split: option.splits sum.splits)
  have hs: "hostSort (sortVisits shortSource)"
    by (simp add: shortSource_def modelCollaborators_def hostSort_insertionSort)
  from n2 have m2: "last (res_visits res2) \<in> set (res_visits res2)" by simp
  from queryOffset_of_result[OF q2] e2 n2 hs m2
  have o2: "res_queryOffset res2 = Some (queryOffset (last (res_visits res2)) + 1)"
    and s2: "start (last (res_visits res2)) \<le> start (last (res_visits res2))"
    by simp_all
  from q2 e2 n2 o2 hs m2 s2 have second:
    "\<exists>res. queryVisits (Suc (Suc 0)) shortSource fiveVisitRequest = Some (Inr res)
       \<and> earliestIncompleteOffset shortSource (res_summary res) = None
       \<and> 0 < length (res_visits res)
       \<and> res_queryOffset res = Some (queryOffset (last (res_visits res)) + 1)
       \<and> hostSort (sortVisits shortSource)
       \<and> last (res_visits res) \<in> set (res_visits res)
       \<and> start (last (res_visits res)) \<le> start (last (res_visits res))"
    by blast
  from first second show ?thesis by (rule conjI)
qed

subsection \<open>The order of the returned visits\<close>

text \<open>
  C7 as stated, that the returned visits are in descending order of start and visits of
  equal start keep their fetch order, fails: two devices with a visit each at the same
  time are fetched as visits 2 and 3 and returned as 3 and 2 by a host sort. The
  comparator answers -1 for two visits of equal start, whichever comes first.
\<close>

theorem ties_not_in_fetch_order:
  "hostSort (sortVisits twoDevices)
   \<and> (case queryVisits (Suc (Suc 0)) twoDevices fiveVisitRequest of
        Some (Inr res) \<Rightarrow>
          \<not> (nonIncreasing (map start (res_visits res))
             \<and> tiesKeepFetchOrder (completeVisits twoDevices (res_summary res)) (res_visits res))
      | _ \<Rightarrow> False)"
proof -
  have hs: "hostSort (sortVisits twoDevices)"
    by (simp add: twoDevices_def modelCollaborators_def hostSort_insertionSort)
  have "case queryVisits (Suc (Suc 0)) twoDevices fiveVisitRequest of
          Some (Inr res) \<Rightarrow>
            map visitID (filter (\<lambda>v. start v = 0) (res_visits res)) = [3, 2]
            \<and> map visitID (filter (\<lambda>v. start v = 0)
                 (completeVisits twoDevices (res_summary res))) = [2, 3]
        | _ \<Rightarrow> False"
    by code_simp
  then obtain res
    where q: "queryVisits (Suc (Suc 0)) twoDevices fiveVisitRequest = Some (Inr res)"
    and returned: "map visitID (filter (\<lambda>v. start v = 0) (res_visits res)) = [3, 2]"
    and fetched: "map visitID (filter (\<lambda>v. start v = 0)
                    (completeVisits twoDevices (res_summary res))) = [2, 3]"
    by (auto split: option.splits sum.splits)
  have "\<not> tiesKeepFetchOrder (completeVisits twoDevices (res_summary res)) (res_visits res)"
  proof
    assume "tiesKeepFetchOrder (completeVisits twoDevices (res_summary res)) (res_visits res)"
    then have "map visitID (filter (\<lambda>v. start v = 0) (res_visits res))
        = map visitID (filter (\<lambda>v. start v = 0) (completeVisits twoDevices (res_summary res)))"
      unfolding tiesKeepFetchOrder_def by (rule spec)
    with returned fetched show False by simp
  qed
  then have "case queryVisits (Suc (Suc 0)) twoDevices fiveVisitRequest of
        Some (Inr res) \<Rightarrow>
          \<not> (nonIncreasing (map start (res_visits res))
             \<and> tiesKeepFetchOrder (completeVisits twoDevices (res_summary res)) (res_visits res))
      | _ \<Rightarrow> False"
    by (simp add: q)
  with hs show ?thesis by (rule conjI)
qed

text \<open>
  C7 amended: with a host sort, the returned visits are the complete visits of the
  finalised summary, each once and with its audio events named, in descending order of
  start. The order among visits of equal start is the host's.
\<close>

theorem visits_descending_by_start:
  assumes "hostSort (sortVisits c)"
    and "queryVisits fuel c rq = Some (Inr res)"
  shows "nonIncreasing (map start (res_visits res))
       \<and> mset (res_visits res) =
           image_mset (nameAudioEvents (audioFileNames (getMultiple c
                         (allAudioFileIds c (res_summary res)))))
             (mset (completeVisits c (res_summary res)))"
proof -
  from queryVisits_result[OF assms(2)] obtain l where r: "res = finishQuery c l"
    by blast
  let ?ds = "res_summary res"
  let ?sorted = "sortVisits c compareVisits (completeVisits c ?ds)"
  have vs: "res_visits res =
      map (nameAudioEvents (audioFileNames (getMultiple c (allAudioFileIds c ?ds)))) ?sorted"
    by (simp add: r finishQuery_def Let_def)
  from hostSort_visits(2)[OF assms(1)] have "nonIncreasing (map start ?sorted)" .
  then have a: "nonIncreasing (map start (res_visits res))"
    by (simp add: vs comp_def)
  from hostSort_visits(1)[OF assms(1)] have "mset ?sorted = mset (completeVisits c ?ds)" .
  then have b: "mset (res_visits res) =
           image_mset (nameAudioEvents (audioFileNames (getMultiple c (allAudioFileIds c ?ds))))
             (mset (completeVisits c ?ds))"
    by (simp add: vs)
  from a b show ?thesis by (rule conjI)
qed

theorem visits_descending_by_start_witness:
  "hostSort (sortVisits twoVisits)
   \<and> (\<exists>res. queryVisits (Suc (Suc 0)) twoVisits fiveVisitRequest = Some (Inr res)
         \<and> map start (res_visits res) = [9000000, 0]
         \<and> nonIncreasing (map start (res_visits res)))"
proof -
  have hs: "hostSort (sortVisits twoVisits)"
    by (simp add: twoVisits_def modelCollaborators_def hostSort_insertionSort)
  have "case queryVisits (Suc (Suc 0)) twoVisits fiveVisitRequest of
          Some (Inr res) \<Rightarrow> map start (res_visits res) = [9000000, 0]
        | _ \<Rightarrow> False"
    by code_simp
  then obtain res where q: "queryVisits (Suc (Suc 0)) twoVisits fiveVisitRequest = Some (Inr res)"
    and v: "map start (res_visits res) = [9000000, 0]"
    by (auto split: option.splits sum.splits)
  from visits_descending_by_start[OF hs q]
  have "nonIncreasing (map start (res_visits res))" by (rule conjunct1)
  then have "queryVisits (Suc (Suc 0)) twoVisits fiveVisitRequest = Some (Inr res)
         \<and> map start (res_visits res) = [9000000, 0]
         \<and> nonIncreasing (map start (res_visits res))"
    using q v by (intro conjI)
  then have "\<exists>res. queryVisits (Suc (Suc 0)) twoVisits fiveVisitRequest = Some (Inr res)
         \<and> map start (res_visits res) = [9000000, 0]
         \<and> nonIncreasing (map start (res_visits res))"
    by (rule exI)
  with hs show ?thesis by (rule conjI)
qed

section \<open>The rows of a visit\<close>

subsection \<open>The loops write the merge\<close>

lemma pending_pop: "pending (fst (pop xs)) (snd (pop xs)) = rev xs"
  by (cases xs rule: rev_cases) (simp_all add: pop_def pending_def)

lemma pop_none: "fst (pop xs) = None \<Longrightarrow> snd (pop xs) = []"
  by (simp add: pop_def split: if_splits)

lemma whileBaitBefore_pending:
  "(audioEvent = None \<longrightarrow> audioEvents = []) \<Longrightarrow>
   whileBaitBefore ev audioEvent audioEvents = (rows, a, rest) \<Longrightarrow>
     rows = map addAudioBaitRow
              (takeWhile (\<lambda>x. dateTime x > eventStart ev) (pending audioEvent audioEvents))
     \<and> pending a rest
         = dropWhile (\<lambda>x. dateTime x > eventStart ev) (pending audioEvent audioEvents)
     \<and> (a = None \<longrightarrow> rest = [])"
proof (induction ev audioEvent audioEvents arbitrary: rows a rest rule: whileBaitBefore.induct)
  case (1 ev audioEvent audioEvents)
  show ?case
  proof (cases audioEvent)
    case None
    with "1.prems" show ?thesis
      by (simp add: whileBaitBefore.simps pending_def)
  next
    case (Some x)
    show ?thesis
    proof (cases "audioBaitBefore (Some x) ev")
      case False
      with Some "1.prems" show ?thesis
        by (auto simp: whileBaitBefore.simps pending_def audioBaitBefore_def audioTime_def)
    next
      case True
      obtain rows' a' rest' where
        rec: "whileBaitBefore ev (fst (pop audioEvents)) (snd (pop audioEvents)) = (rows', a', rest')"
        by (cases "whileBaitBefore ev (fst (pop audioEvents)) (snd (pop audioEvents))") auto
      have wf: "fst (pop audioEvents) = None \<longrightarrow> snd (pop audioEvents) = []"
        by (simp add: pop_none)
      from "1.IH"[OF Some True wf rec]
      have ih: "rows' = map addAudioBaitRow
                  (takeWhile (\<lambda>x. dateTime x > eventStart ev) (rev audioEvents))"
        "pending a' rest' = dropWhile (\<lambda>x. dateTime x > eventStart ev) (rev audioEvents)"
        "a' = None \<longrightarrow> rest' = []"
        by (simp_all add: pending_pop)
      from Some True rec "1.prems"(2)
      have res: "rows = addAudioBaitRow x # rows'" "a = a'" "rest = rest'"
        by (simp_all add: whileBaitBefore.simps)
      from True have late: "dateTime x > eventStart ev"
        by (simp add: audioBaitBefore_def audioTime_def)
      from ih res late Some show ?thesis
        by (simp add: pending_def)
    qed
  qed
qed

lemma eventLoop_interleave:
  "(audioEvent = None \<longrightarrow> audioEvents = []) \<Longrightarrow>
   eventLoop evs audioEvent audioEvents = (rows, a, rest) \<Longrightarrow>
     rows @ map addAudioBaitRow (pending a rest) = interleave (pending audioEvent audioEvents) evs"
proof (induction evs arbitrary: audioEvent audioEvents rows a rest)
  case Nil
  then show ?case by simp
next
  case (Cons ev evs)
  obtain rows1 a1 rest1 where
    w: "whileBaitBefore ev audioEvent audioEvents = (rows1, a1, rest1)"
    by (cases "whileBaitBefore ev audioEvent audioEvents") auto
  obtain rows2 a2 rest2 where
    e: "eventLoop evs a1 rest1 = (rows2, a2, rest2)"
    by (cases "eventLoop evs a1 rest1") auto
  from whileBaitBefore_pending[OF Cons.prems(1) w]
  have w1: "rows1 = map addAudioBaitRow
              (takeWhile (\<lambda>x. dateTime x > eventStart ev) (pending audioEvent audioEvents))"
    and w2: "pending a1 rest1
         = dropWhile (\<lambda>x. dateTime x > eventStart ev) (pending audioEvent audioEvents)"
    and w3: "a1 = None \<longrightarrow> rest1 = []"
    by simp_all
  from Cons.IH[OF w3 e]
  have ih: "rows2 @ map addAudioBaitRow (pending a2 rest2) = interleave (pending a1 rest1) evs" .
  from Cons.prems(2) w e have "rows = rows1 @ [addEventRow ev] @ rows2" "a = a2" "rest = rest2"
    by simp_all
  with ih w1 w2 show ?case by simp
qed

lemma visitRows_interleave:
  "visitRows c v =
     addVisitRow v
       # interleave (rev (sortAudioEvents c compareAudioEvents (audioBaitEvents v))) (events v)"
proof -
  let ?sorted = "sortAudioEvents c compareAudioEvents (audioBaitEvents v)"
  obtain rows a rest where
    e: "eventLoop (events v) (fst (pop ?sorted)) (snd (pop ?sorted)) = (rows, a, rest)"
    by (cases "eventLoop (events v) (fst (pop ?sorted)) (snd (pop ?sorted))") auto
  have wf: "fst (pop ?sorted) = None \<longrightarrow> snd (pop ?sorted) = []"
    by (simp add: pop_none)
  from eventLoop_interleave[OF wf e]
  have m: "rows @ map addAudioBaitRow (pending a rest) = interleave (rev ?sorted) (events v)"
    by (simp add: pending_pop)
  have p: "rev (case a of None \<Rightarrow> rest | Some x \<Rightarrow> rest @ [x]) = pending a rest"
    by (simp add: pending_def split: option.splits)
  have "visitRows c v = addVisitRow v # rows @ map addAudioBaitRow (pending a rest)"
    by (simp add: visitRows_def Let_def e p)
  with m show ?thesis by simp
qed

subsection \<open>Properties of the merge\<close>

lemma isAudioBaitRow_addAudioBaitRow [simp]: "isAudioBaitRow (addAudioBaitRow a)"
  by (simp add: addAudioBaitRow_def Let_def)

lemma isAudioBaitRow_addEventRow [simp]: "\<not> isAudioBaitRow (addEventRow ev)"
  by (simp add: addEventRow_def)

lemma isAudioBaitRow_addVisitRow [simp]: "\<not> isAudioBaitRow (addVisitRow v)"
  by (simp add: addVisitRow_def)

lemma rowTime_addAudioBaitRow [simp]: "rowTime (addAudioBaitRow a) = Some (dateTime a)"
  by (simp add: addAudioBaitRow_def Let_def)

lemma rowTime_addEventRow [simp]: "rowTime (addEventRow ev) = Some (eventStart ev)"
  by (simp add: addEventRow_def)

lemma rowTime_addVisitRow [simp]: "rowTime (addVisitRow v) = None"
  by (simp add: addVisitRow_def)

lemma filter_bait_rows: "filter isAudioBaitRow (map addAudioBaitRow as) = map addAudioBaitRow as"
  by (induction as) simp_all

lemma bait_rows_interleave:
  "filter isAudioBaitRow (interleave waiting evs) = map addAudioBaitRow waiting"
proof (induction evs arbitrary: waiting)
  case Nil
  show ?case by (simp add: filter_bait_rows)
next
  case (Cons ev evs)
  have "map addAudioBaitRow (takeWhile (\<lambda>a. dateTime a > eventStart ev) waiting)
          @ map addAudioBaitRow (dropWhile (\<lambda>a. dateTime a > eventStart ev) waiting)
        = map addAudioBaitRow waiting"
    by (simp flip: map_append)
  with Cons.IH show ?case by (simp add: filter_bait_rows)
qed












lemma bait_rows_of_visit:
  "filter isAudioBaitRow (visitRows c v) =
     map addAudioBaitRow (rev (sortAudioEvents c compareAudioEvents (audioBaitEvents v)))"
  by (simp add: visitRows_interleave bait_rows_interleave)


lemma hostSort_model: "hostSort (sortAudioEvents (modelCollaborators declared rs files))"
  by (simp add: modelCollaborators_def hostSort_insertionSort)

lemma reportVisits_rows:
  assumes "queryVisits fuel c rq = Some (Inr res)"
  shows "reportVisits fuel c rq =
           Some (Inr (reportDeviceVisits c (res_summary res)
                      @ [BlankRow, HeaderRow]
                      @ concat (map (visitRows c) (res_visits res))))"
  using assms by (simp add: reportVisits_def)

lemma mset_bait_rows_of_visit:
  assumes "hostSort (sortAudioEvents c)"
  shows "mset (filter isAudioBaitRow (visitRows c v))
           = image_mset addAudioBaitRow (mset (audioBaitEvents v))"
proof -
  from hostSort_audio(1)[OF assms]
  have "mset (sortAudioEvents c compareAudioEvents (audioBaitEvents v))
          = mset (audioBaitEvents v)" .
  then show ?thesis
    by (simp add: bait_rows_of_visit)
qed

lemma mset_bait_rows_of_visits:
  assumes "hostSort (sortAudioEvents c)"
  shows "mset (filter isAudioBaitRow (concat (map (visitRows c) vs)))
           = image_mset addAudioBaitRow (mset (concat (map audioBaitEvents vs)))"
  by (induction vs) (simp_all del: mset_filter add: mset_bait_rows_of_visit[OF assms])

lemma no_bait_row_among_device_rows: "filter isAudioBaitRow (reportDeviceVisits c s) = []"
proof -
  have "filter isAudioBaitRow
          (concat (map (\<lambda>(deviceId, animals). DeviceRow deviceId # map (AnimalRow deviceId) animals)
                     entries)) = []" for entries :: "(nat \<times> string list) list"
    by (induction entries) (auto simp: filter_empty_conv)
  then show ?thesis by (simp add: reportDeviceVisits_def)
qed

subsection \<open>Each audio bait event once\<close>

text \<open>
  C10: with a host sort, every audio bait event of a visit gives exactly one Audio Bait
  row among the rows of the visit: as multisets, the Audio Bait rows are the rows of the
  visit's audio bait events. Popping an event and pushing the last one back neither
  drops an event nor writes one twice. So the Audio Bait rows of a whole report are the
  rows of the audio bait events of the returned visits.
\<close>

theorem each_bait_event_one_row:
  assumes "hostSort (sortAudioEvents c)"
  shows "mset (filter isAudioBaitRow (visitRows c v))
           = image_mset addAudioBaitRow (mset (audioBaitEvents v))
       \<and> (queryVisits fuel c rq = Some (Inr res) \<longrightarrow>
            (\<exists>rows. reportVisits fuel c rq = Some (Inr rows)
               \<and> mset (filter isAudioBaitRow rows)
                   = image_mset addAudioBaitRow
                       (mset (concat (map audioBaitEvents (res_visits res))))))"
proof (intro conjI impI)
  show "mset (filter isAudioBaitRow (visitRows c v))
           = image_mset addAudioBaitRow (mset (audioBaitEvents v))"
    by (rule mset_bait_rows_of_visit[OF assms])
next
  assume q: "queryVisits fuel c rq = Some (Inr res)"
  let ?rows = "reportDeviceVisits c (res_summary res)
                 @ [BlankRow, HeaderRow]
                 @ concat (map (visitRows c) (res_visits res))"
  have "mset (filter isAudioBaitRow ?rows)
      = image_mset addAudioBaitRow (mset (concat (map audioBaitEvents (res_visits res))))"
    using mset_bait_rows_of_visits[OF assms, of "res_visits res"]
    by (simp del: mset_filter add: no_bait_row_among_device_rows)
  with reportVisits_rows[OF q]
  show "\<exists>rows. reportVisits fuel c rq = Some (Inr rows)
               \<and> mset (filter isAudioBaitRow rows)
                   = image_mset addAudioBaitRow
                       (mset (concat (map audioBaitEvents (res_visits res))))"
    by blast
qed

theorem each_bait_event_one_row_witness:
  "hostSort (sortAudioEvents twoDevices)
   \<and> mset (filter isAudioBaitRow (visitRows twoDevices scenarioVisit))
       = image_mset addAudioBaitRow (mset (audioBaitEvents scenarioVisit))
   \<and> audioBaitEvents scenarioVisit = [lure]
   \<and> (\<exists>res rows. queryVisits (Suc (Suc 0)) twoDevices fiveVisitRequest = Some (Inr res)
         \<and> reportVisits (Suc (Suc 0)) twoDevices fiveVisitRequest = Some (Inr rows)
         \<and> mset (filter isAudioBaitRow rows)
             = image_mset addAudioBaitRow
                 (mset (concat (map audioBaitEvents (res_visits res)))))"
proof -
  have hs: "hostSort (sortAudioEvents twoDevices)"
    unfolding twoDevices_def by (rule hostSort_model)
  have l: "audioBaitEvents scenarioVisit = [lure]"
    by (simp add: scenarioVisit_def)
  have "case queryVisits (Suc (Suc 0)) twoDevices fiveVisitRequest of
          Some (Inr res) \<Rightarrow> True | _ \<Rightarrow> False"
    by code_simp
  then obtain res where q: "queryVisits (Suc (Suc 0)) twoDevices fiveVisitRequest = Some (Inr res)"
    by (auto split: option.splits sum.splits)
  note claim = each_bait_event_one_row[OF hs, of scenarioVisit "Suc (Suc 0)" fiveVisitRequest res]
  from claim have one: "mset (filter isAudioBaitRow (visitRows twoDevices scenarioVisit))
       = image_mset addAudioBaitRow (mset (audioBaitEvents scenarioVisit))"
    by (rule conjunct1)
  from claim q obtain rows
    where "reportVisits (Suc (Suc 0)) twoDevices fiveVisitRequest = Some (Inr rows)"
      "mset (filter isAudioBaitRow rows)
             = image_mset addAudioBaitRow
                 (mset (concat (map audioBaitEvents (res_visits res))))"
    by blast
  with q have all: "\<exists>res rows. queryVisits (Suc (Suc 0)) twoDevices fiveVisitRequest = Some (Inr res)
         \<and> reportVisits (Suc (Suc 0)) twoDevices fiveVisitRequest = Some (Inr rows)
         \<and> mset (filter isAudioBaitRow rows)
             = image_mset addAudioBaitRow
                 (mset (concat (map audioBaitEvents (res_visits res))))"
    by blast
  from hs one l all show ?thesis
    by (intro conjI)
qed

subsection \<open>Rows in descending order of time\<close>



subsection \<open>An audio file the lookup does not know\<close>

lemma audioFileNames_fold:
  "foldl (\<lambda>m f. m(file_id f \<mapsto> file_name f)) m files k = None
     \<longleftrightarrow> m k = None \<and> k \<notin> file_id ` set files"
  by (induction files arbitrary: m) auto

lemma audioFileNames_unknown: "k \<notin> file_id ` set files \<Longrightarrow> audioFileNames files k = None"
  by (simp add: audioFileNames_def audioFileNames_fold)

text \<open>
  C9 as stated, that the name of the row is the blank string, fails: for an audio bait
  event whose file the lookup does not return, the report has the row of the event with
  an undefined name, and no audio bait row with the blank name.
\<close>

theorem unresolved_name_is_not_blank:
  "case reportVisits (Suc (Suc 0)) twoDevices fiveVisitRequest of
     Some (Inr rows) \<Rightarrow>
       filter isAudioBaitRow rows = [AudioBaitRow None 5 (NameAndVolume None 10)]
       \<and> filter (\<lambda>r. audioBaitName r = Some (Some '''')) rows = []
   | _ \<Rightarrow> False"
  by code_simp

text \<open>
  C9 amended: when the query returns and the lookup returns no file for the file id of an
  audio bait event of a returned visit, the report is still produced, with a host sort
  the row of that event is among its rows, and the name in that row is undefined.
\<close>

theorem unresolved_name_is_undefined:
  assumes "queryVisits fuel c rq = Some (Inr res)"
    and "hostSort (sortAudioEvents c)"
    and "v \<in> set (res_visits res)"
    and "a \<in> set (audioBaitEvents v)"
    and "fileId a \<notin> file_id ` set (getMultiple c (allAudioFileIds c (res_summary res)))"
  shows "\<exists>rows. reportVisits fuel c rq = Some (Inr rows)
           \<and> addAudioBaitRow a \<in> set rows
           \<and> audioBaitName (addAudioBaitRow a) = Some None"
proof -
  let ?names = "audioFileNames (getMultiple c (allAudioFileIds c (res_summary res)))"
  from queryVisits_result[OF assms(1)] obtain l where r: "res = finishQuery c l"
    by blast
  have vs: "res_visits res =
      map (nameAudioEvents ?names) (sortVisits c compareVisits (completeVisits c (res_summary res)))"
    by (simp add: r finishQuery_def Let_def)
  from assms(3) obtain v0 where v: "v = nameAudioEvents ?names v0"
    unfolding vs by auto
  from assms(4) obtain a0 where a: "a = a0\<lparr>fileName := ?names (fileId a0)\<rparr>"
    unfolding v nameAudioEvents_def by auto
  from a have "fileName a = ?names (fileId a)" by simp
  with audioFileNames_unknown[OF assms(5)] have undefined: "fileName a = None"
    by simp
  have row: "audioBaitName (addAudioBaitRow a) = Some None"
    by (simp add: addAudioBaitRow_def Let_def undefined)
  from hostSort_audio(1)[OF assms(2), of "audioBaitEvents v"]
  have "set (sortAudioEvents c compareAudioEvents (audioBaitEvents v)) = set (audioBaitEvents v)"
    by (rule mset_eq_setD)
  with assms(4) have "addAudioBaitRow a \<in> set (filter isAudioBaitRow (visitRows c v))"
    by (simp add: bait_rows_of_visit)
  then have "addAudioBaitRow a \<in> set (visitRows c v)" by simp
  with assms(3) have mem: "addAudioBaitRow a
      \<in> set (reportDeviceVisits c (res_summary res)
             @ [BlankRow, HeaderRow]
             @ concat (map (visitRows c) (res_visits res)))"
    by auto
  from reportVisits_rows[OF assms(1)] mem row show ?thesis by blast
qed

theorem unresolved_name_is_undefined_witness:
  "\<exists>res v a rows.
     queryVisits (Suc (Suc 0)) twoDevices fiveVisitRequest = Some (Inr res)
     \<and> hostSort (sortAudioEvents twoDevices)
     \<and> v \<in> set (res_visits res)
     \<and> a \<in> set (audioBaitEvents v)
     \<and> fileId a \<notin> file_id ` set (getMultiple twoDevices
                                     (allAudioFileIds twoDevices (res_summary res)))
     \<and> reportVisits (Suc (Suc 0)) twoDevices fiveVisitRequest = Some (Inr rows)
     \<and> addAudioBaitRow a \<in> set rows
     \<and> audioBaitName (addAudioBaitRow a) = Some None"
proof -
  have hs: "hostSort (sortAudioEvents twoDevices)"
    unfolding twoDevices_def by (rule hostSort_model)
  have "case queryVisits (Suc (Suc 0)) twoDevices fiveVisitRequest of
          Some (Inr res) \<Rightarrow>
            (case res_visits res of
               [v3, v2] \<Rightarrow>
                 (case audioBaitEvents v2 of
                    [a] \<Rightarrow> fileId a = 3
                           \<and> getMultiple twoDevices (allAudioFileIds twoDevices (res_summary res)) = []
                  | _ \<Rightarrow> False)
             | _ \<Rightarrow> False)
        | _ \<Rightarrow> False"
    by code_simp
  then obtain res v3 v2 a
    where q: "queryVisits (Suc (Suc 0)) twoDevices fiveVisitRequest = Some (Inr res)"
    and vs: "res_visits res = [v3, v2]"
    and as: "audioBaitEvents v2 = [a]"
    and files: "getMultiple twoDevices (allAudioFileIds twoDevices (res_summary res)) = []"
    by (auto split: option.splits sum.splits list.splits)
  have v: "v2 \<in> set (res_visits res)" by (simp add: vs)
  have a: "a \<in> set (audioBaitEvents v2)" by (simp add: as)
  have f: "fileId a \<notin> file_id ` set (getMultiple twoDevices
                                     (allAudioFileIds twoDevices (res_summary res)))"
    by (simp add: files)
  from unresolved_name_is_undefined[OF q hs v a f] obtain rows
    where rep: "reportVisits (Suc (Suc 0)) twoDevices fiveVisitRequest = Some (Inr rows)"
    and mem: "addAudioBaitRow a \<in> set rows"
    and row: "audioBaitName (addAudioBaitRow a) = Some None"
    by blast
  from q hs v a f rep mem row show ?thesis
    by (intro exI conjI)
qed

end
